theory Spec2Isabelle
  imports Complex_Main "HOL-Library.Sublist"
begin

section \<open>Data model of App.jsx\<close>

text \<open>
  A text box is the object pushed by \<open>extractTextContent\<close>
  (\<open>{str, left, top, width, height, pageNumber}\<close>).  JavaScript numbers are
  modelled as reals, JavaScript strings as \<open>string\<close> (ASCII text).  The field
  names carry the suffix \<open>_box\<close> because \<open>top\<close> is a constant of HOL.
\<close>

record TextBox =
  str :: string
  left_box :: real
  top_box :: real
  width_box :: real
  height_box :: real
  pageNumber :: nat

text \<open>The object literal returned by \<open>calculateBoundingRect\<close>.\<close>

record Rect =
  left_rect :: real
  top_rect :: real
  width_rect :: real
  height_rect :: real

text \<open>The object literal \<open>{ page: pageNum, rect: boundingRect }\<close> of \<open>findPhrase\<close>.\<close>

record Found =
  page :: nat
  rect :: Rect

text \<open>One entry of \<open>SEARCH_PHRASES\<close>; \<open>pageHint\<close> may be missing.\<close>

record PhraseConfig =
  canonical :: string
  variations :: "string list"
  pageHint :: "nat option"

definition SEARCH_PHRASES :: "nat \<rightharpoonup> PhraseConfig" where
  "SEARCH_PHRASES =
     [1 \<mapsto> \<lparr>canonical = ''EBITDA of USD 2.3 bn'',
             variations = [''ebitda of usd 2.3 bn'', ''ebitda of usd 2.3bn'',
                           ''ebitda usd 2.3 bn'', ''ebitda 2.3 bn'',
                           ''ebitda of 2.3 bn'', ''2.3 bn''],
             pageHint = Some 3\<rparr>,
      2 \<mapsto> \<lparr>canonical = ''Ocean revenue increased by 2.4%'',
             variations = [''ocean revenue increased by 2.4%'', ''revenue increased by 2.4%'',
                           ''ocean revenue increased'', ''increased by 2.4%'', ''2.4%''],
             pageHint = Some 5\<rparr>,
      3 \<mapsto> \<lparr>canonical = ''Gain on sale of non-current assets'',
             variations = [''gain on sale of non-current assets'', ''gain on sale'',
                           ''non-current assets'', ''sale of assets'', ''25 208''],
             pageHint = Some 15\<rparr>]"

section \<open>String primitives\<close>

text \<open>
  \<open>String.prototype.toLowerCase\<close> on ASCII text: the letters \<open>A\<close> to \<open>Z\<close>
  (codes 65 to 90) move to \<open>a\<close> to \<open>z\<close>, every other character stays.
\<close>

definition toLowerCase_char :: "char \<Rightarrow> char" where
  "toLowerCase_char c =
     (if 65 \<le> (of_char c :: nat) \<and> (of_char c :: nat) \<le> 90
      then char_of ((of_char c :: nat) + 32) else c)"

definition toLowerCase :: "string \<Rightarrow> string" where
  "toLowerCase s = map toLowerCase_char s"

text \<open>
  \<open>s.includes(t)\<close>, which is also \<open>s.indexOf(t) !== -1\<close>: \<open>t\<close> starts at some
  position of \<open>s\<close>.
\<close>

fun includes_str :: "string \<Rightarrow> string \<Rightarrow> bool" where
  "includes_str [] t = (t = [])"
| "includes_str (c # s) t = (prefix t (c # s) \<or> includes_str s t)"

text \<open>\<open>Array.prototype.join(sep)\<close> on an array of strings.\<close>

fun join :: "string \<Rightarrow> string list \<Rightarrow> string" where
  "join sep [] = []"
| "join sep [s] = s"
| "join sep (s # t # ss) = s @ sep @ join sep (t # ss)"

section \<open>findMatchingTextBoxes\<close>

text \<open>
  The \<open>for\<close> loop of \<open>findMatchingTextBoxes\<close>, with the loop variables
  \<open>i\<close>, \<open>currentText\<close> and \<open>currentBoxes\<close> as arguments.
  \<open>boxes[Math.max(0, i - 10)]\<close> is \<open>boxes ! (i - 10)\<close> on naturals (an index
  below \<open>length boxes\<close>, as \<open>i\<close> is); \<open>substring(n)\<close> is \<open>drop n\<close> and
  \<open>slice(1)\<close> is \<open>drop 1\<close>.  Falling out of the loop returns the empty
  \<open>matchingBoxes\<close>.
\<close>

function findMatchingTextBoxes_loop ::
  "TextBox list \<Rightarrow> string \<Rightarrow> nat \<Rightarrow> string \<Rightarrow> TextBox list \<Rightarrow> TextBox list" where
  "findMatchingTextBoxes_loop boxes searchText i currentText currentBoxes =
     (if i < length boxes then
        (if includes_str (currentText @ toLowerCase (str (boxes ! i))) searchText
         then currentBoxes @ [boxes ! i]
         else if length (currentText @ toLowerCase (str (boxes ! i))) > length searchText * 3
         then findMatchingTextBoxes_loop boxes searchText (Suc i)
                (drop (length (str (boxes ! (i - 10))))
                   (currentText @ toLowerCase (str (boxes ! i))))
                (drop 1 (currentBoxes @ [boxes ! i]))
         else findMatchingTextBoxes_loop boxes searchText (Suc i)
                (currentText @ toLowerCase (str (boxes ! i)))
                (currentBoxes @ [boxes ! i]))
      else [])"
  by pat_completeness auto
termination
  by (relation "measure (\<lambda>(boxes, searchText, i, currentText, currentBoxes). length boxes - i)")
     auto

declare findMatchingTextBoxes_loop.simps [simp del]

definition findMatchingTextBoxes :: "TextBox list \<Rightarrow> string \<Rightarrow> TextBox list" where
  "findMatchingTextBoxes boxes searchText = findMatchingTextBoxes_loop boxes searchText 0 [] []"

text \<open>
  The same loop, listing what each iteration holds when it tests
  \<open>currentText.includes(searchText)\<close>: the index \<open>i\<close>, the buffer
  \<open>currentText\<close> and the window \<open>currentBoxes\<close>, after the fragment was added.
\<close>

function scan_states ::
  "TextBox list \<Rightarrow> string \<Rightarrow> nat \<Rightarrow> string \<Rightarrow> TextBox list
     \<Rightarrow> (nat \<times> string \<times> TextBox list) list" where
  "scan_states boxes searchText i currentText currentBoxes =
     (if i < length boxes then
        (i, currentText @ toLowerCase (str (boxes ! i)), currentBoxes @ [boxes ! i]) #
        (if includes_str (currentText @ toLowerCase (str (boxes ! i))) searchText
         then []
         else if length (currentText @ toLowerCase (str (boxes ! i))) > length searchText * 3
         then scan_states boxes searchText (Suc i)
                (drop (length (str (boxes ! (i - 10))))
                   (currentText @ toLowerCase (str (boxes ! i))))
                (drop 1 (currentBoxes @ [boxes ! i]))
         else scan_states boxes searchText (Suc i)
                (currentText @ toLowerCase (str (boxes ! i)))
                (currentBoxes @ [boxes ! i]))
      else [])"
  by pat_completeness auto
termination
  by (relation "measure (\<lambda>(boxes, searchText, i, currentText, currentBoxes). length boxes - i)")
     auto

declare scan_states.simps [simp del]

section \<open>calculateBoundingRect\<close>

text \<open>
  The accumulators start at \<open>Infinity\<close> and \<open>-Infinity\<close>; \<open>None\<close> stands
  for that start value, and \<open>Math.min(Infinity, x) = x\<close>,
  \<open>Math.max(-Infinity, x) = x\<close>.
\<close>

definition math_min :: "real option \<Rightarrow> real \<Rightarrow> real option" where
  "math_min acc x = (case acc of None \<Rightarrow> Some x | Some m \<Rightarrow> Some (min m x))"

definition math_max :: "real option \<Rightarrow> real \<Rightarrow> real option" where
  "math_max acc x = (case acc of None \<Rightarrow> Some x | Some m \<Rightarrow> Some (max m x))"

text \<open>The body of \<open>boxes.forEach\<close> on \<open>(minLeft, minTop, maxRight, maxBottom)\<close>.\<close>

definition bound_step ::
  "TextBox \<Rightarrow> real option \<times> real option \<times> real option \<times> real option
     \<Rightarrow> real option \<times> real option \<times> real option \<times> real option" where
  "bound_step box acc =
     (case acc of (minLeft, minTop, maxRight, maxBottom) \<Rightarrow>
        (math_min minLeft (left_box box),
         math_min minTop (top_box box),
         math_max maxRight (left_box box + width_box box),
         math_max maxBottom (top_box box + height_box box)))"

definition zero_rect :: Rect where
  "zero_rect = \<lparr>left_rect = 0, top_rect = 0, width_rect = 0, height_rect = 0\<rparr>"

text \<open>
  The last case is never reached: after the early return the array has a box, and
  every accumulator has left its start value.
\<close>

definition calculateBoundingRect :: "TextBox list \<Rightarrow> Rect" where
  "calculateBoundingRect boxes =
     (if length boxes = 0 then zero_rect
      else (case fold bound_step boxes (None, None, None, None) of
              (Some minLeft, Some minTop, Some maxRight, Some maxBottom) \<Rightarrow>
                \<lparr>left_rect = minLeft, top_rect = minTop,
                 width_rect = maxRight - minLeft, height_rect = maxBottom - minTop\<rparr>
            | _ \<Rightarrow> zero_rect))"

section \<open>findPhrase\<close>

text \<open>
  \<open>pageTextBoxesRef.current\<close> is an object keyed by page number: a map.
  \<open>Object.keys\<close> lists integer keys in ascending numeric order.
\<close>

type_synonym Pages = "nat \<rightharpoonup> TextBox list"

definition object_keys :: "Pages \<Rightarrow> nat list" where
  "object_keys pages = sorted_list_of_set (dom pages)"

text \<open>
  \<open>config.pageHint ? [config.pageHint] : Object.keys(pages).map(p => parseInt(p))\<close>:
  a missing hint and the hint \<open>0\<close> are both falsy.
\<close>

definition pagesToSearch :: "PhraseConfig \<Rightarrow> Pages \<Rightarrow> nat list" where
  "pagesToSearch config pages =
     (case pageHint config of
        None \<Rightarrow> object_keys pages
      | Some h \<Rightarrow> if h \<noteq> 0 then [h] else object_keys pages)"

definition pageText :: "TextBox list \<Rightarrow> string" where
  "pageText boxes = toLowerCase (join '' '' (map str boxes))"

text \<open>
  The inner loop \<open>for (const variation of config.variations)\<close> on one page: a
  \<open>Some\<close> is the \<open>return\<close> inside it, \<open>None\<close> is the loop running to its end.
\<close>

fun try_variations :: "TextBox list \<Rightarrow> nat \<Rightarrow> string list \<Rightarrow> Found option" where
  "try_variations boxes pageNum [] = None"
| "try_variations boxes pageNum (variation # rest) =
     (if includes_str (pageText boxes) (toLowerCase variation) then
        (if length (findMatchingTextBoxes boxes (toLowerCase variation)) > 0
         then Some \<lparr>page = pageNum,
                    rect = calculateBoundingRect
                             (findMatchingTextBoxes boxes (toLowerCase variation))\<rparr>
         else try_variations boxes pageNum rest)
      else try_variations boxes pageNum rest)"

text \<open>
  The outer loop \<open>for (const pageNum of pagesToSearch)\<close>;
  \<open>if (!boxes || boxes.length === 0) continue\<close> skips a page that is missing or
  empty.  \<open>None\<close> is the final \<open>return null\<close>.
\<close>

fun search_pages :: "Pages \<Rightarrow> string list \<Rightarrow> nat list \<Rightarrow> Found option" where
  "search_pages pages vars [] = None"
| "search_pages pages vars (pageNum # rest) =
     (case pages pageNum of
        None \<Rightarrow> search_pages pages vars rest
      | Some boxes \<Rightarrow>
          if length boxes = 0 then search_pages pages vars rest
          else (case try_variations boxes pageNum vars of
                  Some found \<Rightarrow> Some found
                | None \<Rightarrow> search_pages pages vars rest))"

text \<open>
  \<open>findPhrase\<close>, with the configuration table and the page index it reads as
  arguments.
\<close>

definition findPhrase :: "(nat \<rightharpoonup> PhraseConfig) \<Rightarrow> Pages \<Rightarrow> nat \<Rightarrow> Found option" where
  "findPhrase phrases pages referenceNumber =
     (case phrases referenceNumber of
        None \<Rightarrow> None
      | Some config \<Rightarrow> search_pages pages (variations config) (pagesToSearch config pages))"

text \<open>
  The two tests a variation passes before \<open>findPhrase\<close> returns for it: the
  \<open>indexOf\<close> test on the page text and \<open>matchingBoxes.length > 0\<close>.
\<close>

definition variation_matches :: "TextBox list \<Rightarrow> string \<Rightarrow> bool" where
  "variation_matches boxes variation \<longleftrightarrow>
     includes_str (pageText boxes) (toLowerCase variation) \<and>
     findMatchingTextBoxes boxes (toLowerCase variation) \<noteq> []"

text \<open>A page that is indexed, has a box and has a variation passing both tests.\<close>

definition page_matches :: "Pages \<Rightarrow> string list \<Rightarrow> nat \<Rightarrow> bool" where
  "page_matches pages vars pageNum \<longleftrightarrow>
     (case pages pageNum of
        None \<Rightarrow> False
      | Some boxes \<Rightarrow> boxes \<noteq> [] \<and> list_ex (variation_matches boxes) vars)"

text \<open>The same box with its text in lower case, to compare texts up to letter case.\<close>

definition lower_box :: "TextBox \<Rightarrow> TextBox" where
  "lower_box box = box\<lparr>str := toLowerCase (str box)\<rparr>"

text \<open>A box for examples: page, text, left edge and width, on the line \<open>top = 0\<close>.\<close>

definition example_box :: "nat \<Rightarrow> string \<Rightarrow> real \<Rightarrow> real \<Rightarrow> TextBox" where
  "example_box n s x w =
     \<lparr>str = s, left_box = x, top_box = 0, width_box = w, height_box = 10, pageNumber = n\<rparr>"

text \<open>A small page index and configuration table for examples.\<close>

definition example_pages :: Pages where
  "example_pages =
     [1 \<mapsto> [example_box 1 ''Intro'' 0 30],
      2 \<mapsto> [example_box 2 ''A'' 0 10, example_box 2 ''b'' 12 8],
      3 \<mapsto> [example_box 3 ''a'' 4 6]]"

definition example_phrases :: "nat \<rightharpoonup> PhraseConfig" where
  "example_phrases =
     [1 \<mapsto> \<lparr>canonical = ''A b'', variations = [''a b'', ''a''], pageHint = None\<rparr>,
      2 \<mapsto> \<lparr>canonical = ''A'', variations = [''a''], pageHint = Some 3\<rparr>,
      3 \<mapsto> \<lparr>canonical = ''Zzz'', variations = [''zzz''], pageHint = None\<rparr>,
      4 \<mapsto> \<lparr>canonical = ''A'', variations = [''a''], pageHint = Some 7\<rparr>]"

text \<open>
  A page on which the phrase \<open>bz\<close> is one box, after the boxes \<open>cccccccb\<close> and
  \<open>z\<close>; and a page that starts with an empty box.
\<close>

definition spanning_page :: "TextBox list" where
  "spanning_page =
     [example_box 1 ''aaaaaaa'' 0 70, example_box 1 ''cccccccb'' 70 80, example_box 1 ''z'' 150 10,
      example_box 1 ''bz'' 160 20]"

definition filler_page :: "TextBox list" where
  "filler_page =
     [example_box 1 '''' 0 0, example_box 1 ''aa'' 0 20, example_box 1 ''aa'' 20 20,
      example_box 1 ''aa'' 40 20]"

text \<open>Page 3 with the first phrase of \<open>SEARCH_PHRASES\<close> split over two boxes.\<close>

definition ebitda_split_page :: "TextBox list" where
  "ebitda_split_page = [example_box 3 ''EBITDA of'' 0 60, example_box 3 ''USD 2.3 bn'' 65 70]"

definition ebitda_phrases :: "nat \<rightharpoonup> PhraseConfig" where
  "ebitda_phrases =
     [1 \<mapsto> \<lparr>canonical = ''EBITDA'', variations = [''ebitda''], pageHint = Some 3\<rparr>]"

definition ebitda_mixed_phrases :: "nat \<rightharpoonup> PhraseConfig" where
  "ebitda_mixed_phrases =
     [1 \<mapsto> \<lparr>canonical = ''EBITDA'', variations = [''Ebitda''], pageHint = Some 3\<rparr>]"

definition ebitda_upper_pages :: Pages where
  "ebitda_upper_pages = [3 \<mapsto> [example_box 3 ''Q2'' 0 20, example_box 3 ''EBITDA'' 25 60]]"

definition ebitda_lower_pages :: Pages where
  "ebitda_lower_pages = [3 \<mapsto> [example_box 3 ''q2'' 0 20, example_box 3 ''ebitda'' 25 60]]"

section \<open>Highlight state\<close>








section \<open>Facts about the string primitives\<close>

text \<open>The definitions that evaluate the search on a concrete input.\<close>

lemmas eval_simps =
  findMatchingTextBoxes_loop.simps scan_states.simps findMatchingTextBoxes_def
  findPhrase_def pagesToSearch_def object_keys_def pageText_def
  toLowerCase_def toLowerCase_char_def char_of_def bit_Suc_0_iff
  calculateBoundingRect_def bound_step_def math_min_def math_max_def zero_rect_def
  example_box_def

lemma includes_str_sublist: "includes_str s t \<longleftrightarrow> sublist t s"
  by (induction s) (auto simp: sublist_Cons_right)

section \<open>The window of findMatchingTextBoxes is a segment of the page\<close>

lemma window_push:
  assumes "i < length boxes" and "k \<le> i"
  shows "drop k (take i boxes) @ [boxes ! i] = drop k (take (Suc i) boxes)"
  using assms by (simp add: take_Suc_conv_app_nth)

lemma loop_window:
  assumes "\<exists>k\<le>i. currentBoxes = drop k (take i boxes)"
  shows "\<exists>k j. k \<le> j \<and> j \<le> length boxes \<and>
           findMatchingTextBoxes_loop boxes searchText i currentText currentBoxes
             = drop k (take j boxes)"
  using assms
proof (induction boxes searchText i currentText currentBoxes
       rule: findMatchingTextBoxes_loop.induct)
  case (1 boxes searchText i currentText currentBoxes)
  let ?text = "currentText @ toLowerCase (str (boxes ! i))"
  note unfold = findMatchingTextBoxes_loop.simps [of boxes searchText i currentText currentBoxes]
  show ?case
  proof (cases "i < length boxes")
    case False
    then have "findMatchingTextBoxes_loop boxes searchText i currentText currentBoxes
                 = drop 0 (take 0 boxes)"
      by (simp add: unfold)
    then show ?thesis by blast
  next
    case True
    from "1.prems" obtain k where k: "k \<le> i" "currentBoxes = drop k (take i boxes)"
      by blast
    have push: "currentBoxes @ [boxes ! i] = drop k (take (Suc i) boxes)"
      using True k by (simp add: window_push)
    show ?thesis
    proof (cases "includes_str ?text searchText")
      case hit: True
      have "findMatchingTextBoxes_loop boxes searchText i currentText currentBoxes
              = drop k (take (Suc i) boxes)"
        using True hit push by (simp add: unfold)
      moreover have "k \<le> Suc i" "Suc i \<le> length boxes"
        using True k by simp_all
      ultimately show ?thesis by blast
    next
      case miss: False
      show ?thesis
      proof (cases "length ?text > length searchText * 3")
        case long: True
        have "\<exists>k'\<le>Suc i. drop 1 (currentBoxes @ [boxes ! i]) = drop k' (take (Suc i) boxes)"
          using k push by (intro exI [of _ "Suc k"]) simp
        from "1.IH"(1) [OF True miss long this] True miss long
        show ?thesis by (simp add: unfold)
      next
        case short: False
        have "\<exists>k'\<le>Suc i. currentBoxes @ [boxes ! i] = drop k' (take (Suc i) boxes)"
          using k push by (intro exI [of _ k]) simp
        from "1.IH"(2) [OF True miss short this] True miss short
        show ?thesis by (simp add: unfold)
      qed
    qed
  qed
qed

lemma findMatchingTextBoxes_window:
  "\<exists>k j. k \<le> j \<and> j \<le> length boxes \<and>
     findMatchingTextBoxes boxes searchText = drop k (take j boxes)"
  unfolding findMatchingTextBoxes_def by (rule loop_window) simp

lemma findMatchingTextBoxes_sublist: "sublist (findMatchingTextBoxes boxes searchText) boxes"
proof -
  obtain k j where "findMatchingTextBoxes boxes searchText = drop k (take j boxes)"
    using findMatchingTextBoxes_window by blast
  moreover have "sublist (drop k (take j boxes)) (take j boxes)"
    by (rule suffix_imp_sublist) (rule suffix_drop)
  moreover have "sublist (take j boxes) boxes"
    by (rule prefix_imp_sublist) (rule take_is_prefix)
  ultimately show ?thesis by (metis sublist_order.order_trans)
qed

lemma findMatchingTextBoxes_subset:
  "set (findMatchingTextBoxes boxes searchText) \<subseteq> set boxes"
  using findMatchingTextBoxes_sublist by (rule set_mono_sublist)

section \<open>The bounding rectangle is the min/max reduction\<close>

lemma fold_math_min:
  "fold (\<lambda>box acc. math_min acc (f box)) boxes (Some m) = Some (Min (insert m (f ` set boxes)))"
proof (induction boxes arbitrary: m)
  case Nil
  show ?case by simp
next
  case (Cons b boxes)
  have "Min (insert (min m (f b)) (f ` set boxes)) = Min (insert m (insert (f b) (f ` set boxes)))"
    by (cases "f ` set boxes = {}") (simp_all add: min.assoc)
  with Cons show ?case by (simp add: math_min_def del: Min_insert)
qed

lemma fold_math_max:
  "fold (\<lambda>box acc. math_max acc (f box)) boxes (Some m) = Some (Max (insert m (f ` set boxes)))"
proof (induction boxes arbitrary: m)
  case Nil
  show ?case by simp
next
  case (Cons b boxes)
  have "Max (insert (max m (f b)) (f ` set boxes)) = Max (insert m (insert (f b) (f ` set boxes)))"
    by (cases "f ` set boxes = {}") (simp_all add: max.assoc)
  with Cons show ?case by (simp add: math_max_def del: Max_insert)
qed

lemma fold_bound_step:
  "fold bound_step boxes (a, b, c, d) =
     (fold (\<lambda>box acc. math_min acc (left_box box)) boxes a,
      fold (\<lambda>box acc. math_min acc (top_box box)) boxes b,
      fold (\<lambda>box acc. math_max acc (left_box box + width_box box)) boxes c,
      fold (\<lambda>box acc. math_max acc (top_box box + height_box box)) boxes d)"
  by (induction boxes arbitrary: a b c d) (simp_all add: bound_step_def)

lemma math_min_None: "math_min None x = Some x"
  by (simp add: math_min_def)

lemma math_max_None: "math_max None x = Some x"
  by (simp add: math_max_def)

lemma fold_bound_step_Cons:
  "fold bound_step (box # boxes) (None, None, None, None) =
     (Some (Min (left_box ` set (box # boxes))),
      Some (Min (top_box ` set (box # boxes))),
      Some (Max ((\<lambda>b. left_box b + width_box b) ` set (box # boxes))),
      Some (Max ((\<lambda>b. top_box b + height_box b) ` set (box # boxes))))"
  by (simp add: bound_step_def fold_bound_step fold_math_min fold_math_max math_min_None
        math_max_None del: Min_insert Max_insert)

lemma calculateBoundingRect_nonempty:
  assumes "boxes \<noteq> []"
  shows "calculateBoundingRect boxes =
           \<lparr>left_rect = Min (left_box ` set boxes),
            top_rect = Min (top_box ` set boxes),
            width_rect = Max ((\<lambda>b. left_box b + width_box b) ` set boxes)
                           - Min (left_box ` set boxes),
            height_rect = Max ((\<lambda>b. top_box b + height_box b) ` set boxes)
                           - Min (top_box ` set boxes)\<rparr>"
proof -
  from assms obtain box rest where "boxes = box # rest"
    by (cases boxes) auto
  then show ?thesis
    unfolding calculateBoundingRect_def by (simp only: fold_bound_step_Cons) simp
qed

text \<open>
  C4.  For every non-empty run of boxes, \<open>calculateBoundingRect\<close> returns exactly the
  min/max reduction: \<open>left\<close> is the least \<open>left\<close> of the run, \<open>top\<close> the least
  \<open>top\<close>, \<open>width\<close> the greatest \<open>left + width\<close> minus that \<open>left\<close>, and
  \<open>height\<close> the greatest \<open>top + height\<close> minus that \<open>top\<close>; nothing is added.
\<close>

theorem calculateBoundingRect_min_max:
  assumes "boxes \<noteq> []"
  shows "left_rect (calculateBoundingRect boxes) = Min (left_box ` set boxes) \<and>
         top_rect (calculateBoundingRect boxes) = Min (top_box ` set boxes) \<and>
         width_rect (calculateBoundingRect boxes)
           = Max ((\<lambda>b. left_box b + width_box b) ` set boxes) - Min (left_box ` set boxes) \<and>
         height_rect (calculateBoundingRect boxes)
           = Max ((\<lambda>b. top_box b + height_box b) ` set boxes) - Min (top_box ` set boxes)"
  by (simp add: calculateBoundingRect_nonempty [OF assms])

theorem calculateBoundingRect_min_max_witness:
  "[example_box 1 ''ab'' 5 20, example_box 1 ''c'' 2 4] \<noteq> [] \<and>
   left_rect (calculateBoundingRect [example_box 1 ''ab'' 5 20, example_box 1 ''c'' 2 4]) = 2 \<and>
   top_rect (calculateBoundingRect [example_box 1 ''ab'' 5 20, example_box 1 ''c'' 2 4]) = 0 \<and>
   width_rect (calculateBoundingRect [example_box 1 ''ab'' 5 20, example_box 1 ''c'' 2 4]) = 23 \<and>
   height_rect (calculateBoundingRect [example_box 1 ''ab'' 5 20, example_box 1 ''c'' 2 4]) = 10"
  using calculateBoundingRect_min_max [of "[example_box 1 ''ab'' 5 20, example_box 1 ''c'' 2 4]"]
  by (simp add: example_box_def)

section \<open>The two loops of findPhrase\<close>

lemma try_variations_find:
  "try_variations boxes pageNum vars =
     map_option
       (\<lambda>v. \<lparr>page = pageNum,
              rect = calculateBoundingRect (findMatchingTextBoxes boxes (toLowerCase v))\<rparr>)
       (List.find (variation_matches boxes) vars)"
  by (induction vars) (simp_all add: variation_matches_def)

lemma try_variations_None:
  "try_variations boxes pageNum vars = None \<longleftrightarrow> \<not> list_ex (variation_matches boxes) vars"
  by (auto simp: try_variations_find find_None_iff list_ex_iff)

lemma try_variations_Some_ex:
  "try_variations boxes pageNum vars = Some found \<Longrightarrow> list_ex (variation_matches boxes) vars"
  using try_variations_None [of boxes pageNum vars] by auto

lemma try_variations_Some:
  "try_variations boxes pageNum vars = Some found \<longleftrightarrow>
     (\<exists>vs v vs'. vars = vs @ v # vs' \<and> (\<forall>u\<in>set vs. \<not> variation_matches boxes u) \<and>
        variation_matches boxes v \<and>
        found = \<lparr>page = pageNum,
                  rect = calculateBoundingRect (findMatchingTextBoxes boxes (toLowerCase v))\<rparr>)"
proof (induction vars)
  case Nil
  show ?case by simp
next
  case (Cons a vars)
  show ?case
  proof (cases "variation_matches boxes a")
    case True
    then have "try_variations boxes pageNum (a # vars) =
        Some \<lparr>page = pageNum,
              rect = calculateBoundingRect (findMatchingTextBoxes boxes (toLowerCase a))\<rparr>"
      by (simp add: variation_matches_def)
    moreover have "(\<exists>vs v vs'. a # vars = vs @ v # vs' \<and> (\<forall>u\<in>set vs. \<not> variation_matches boxes u) \<and>
        variation_matches boxes v \<and>
        found = \<lparr>page = pageNum,
                  rect = calculateBoundingRect (findMatchingTextBoxes boxes (toLowerCase v))\<rparr>)
      \<longleftrightarrow> found = \<lparr>page = pageNum,
                  rect = calculateBoundingRect (findMatchingTextBoxes boxes (toLowerCase a))\<rparr>"
      (is "?L \<longleftrightarrow> ?R")
    proof
      assume ?L
      then obtain vs v vs' where *: "a # vars = vs @ v # vs'" "\<forall>u\<in>set vs. \<not> variation_matches boxes u"
        "found = \<lparr>page = pageNum,
                  rect = calculateBoundingRect (findMatchingTextBoxes boxes (toLowerCase v))\<rparr>"
        by blast
      with True have "vs = []" by (cases vs) auto
      with * show ?R by simp
    next
      assume ?R
      with True show ?L by (intro exI [of _ "[]"] exI [of _ a] exI [of _ vars]) simp
    qed
    ultimately show ?thesis by auto
  next
    case False
    then have step: "try_variations boxes pageNum (a # vars) = try_variations boxes pageNum vars"
      by (auto simp: variation_matches_def)
    have "(\<exists>vs v vs'. a # vars = vs @ v # vs' \<and> (\<forall>u\<in>set vs. \<not> variation_matches boxes u) \<and>
        variation_matches boxes v \<and>
        found = \<lparr>page = pageNum,
                  rect = calculateBoundingRect (findMatchingTextBoxes boxes (toLowerCase v))\<rparr>)
      \<longleftrightarrow> (\<exists>vs v vs'. vars = vs @ v # vs' \<and> (\<forall>u\<in>set vs. \<not> variation_matches boxes u) \<and>
        variation_matches boxes v \<and>
        found = \<lparr>page = pageNum,
                  rect = calculateBoundingRect (findMatchingTextBoxes boxes (toLowerCase v))\<rparr>)"
      (is "?L \<longleftrightarrow> ?R")
    proof
      assume ?L
      then obtain vs v vs' where *: "a # vars = vs @ v # vs'" "\<forall>u\<in>set vs. \<not> variation_matches boxes u"
        "variation_matches boxes v"
        "found = \<lparr>page = pageNum,
                  rect = calculateBoundingRect (findMatchingTextBoxes boxes (toLowerCase v))\<rparr>"
        by blast
      with False obtain vs0 where "vs = a # vs0" by (cases vs) auto
      with * show ?R by auto
    next
      assume ?R
      then obtain vs v vs' where *: "vars = vs @ v # vs'" "\<forall>u\<in>set vs. \<not> variation_matches boxes u"
        "variation_matches boxes v"
        "found = \<lparr>page = pageNum,
                  rect = calculateBoundingRect (findMatchingTextBoxes boxes (toLowerCase v))\<rparr>"
        by blast
      with False show ?L by (intro exI [of _ "a # vs"] exI [of _ v] exI [of _ vs']) simp
    qed
    with step Cons show ?thesis by simp
  qed
qed

lemma search_pages_skip:
  "\<not> page_matches pages vars pageNum \<Longrightarrow>
     search_pages pages vars (pageNum # rest) = search_pages pages vars rest"
  by (auto simp: page_matches_def dest: try_variations_Some_ex split: option.splits)

lemma search_pages_hit:
  "page_matches pages vars pageNum \<Longrightarrow>
     \<exists>boxes. pages pageNum = Some boxes \<and> boxes \<noteq> [] \<and>
       search_pages pages vars (pageNum # rest) = try_variations boxes pageNum vars \<and>
       try_variations boxes pageNum vars \<noteq> None"
  by (auto simp: page_matches_def try_variations_None split: option.splits)

lemma search_pages_None:
  "search_pages pages vars cands = None \<longleftrightarrow> (\<forall>p\<in>set cands. \<not> page_matches pages vars p)"
proof (induction cands)
  case Nil
  show ?case by simp
next
  case (Cons p cands)
  show ?case
  proof (cases "page_matches pages vars p")
    case True
    from search_pages_hit [OF this, of cands] True show ?thesis by auto
  next
    case False
    with Cons show ?thesis by (simp add: search_pages_skip del: search_pages.simps)
  qed
qed

lemma search_pages_Some:
  assumes "search_pages pages vars cands = Some found"
  shows "\<exists>ps rest boxes. cands = ps @ page found # rest \<and>
           (\<forall>p\<in>set ps. \<not> page_matches pages vars p) \<and>
           pages (page found) = Some boxes \<and> boxes \<noteq> [] \<and>
           try_variations boxes (page found) vars = Some found"
  using assms
proof (induction cands)
  case Nil
  then show ?case by simp
next
  case (Cons p cands)
  show ?case
  proof (cases "page_matches pages vars p")
    case True
    from search_pages_hit [OF this, of cands] Cons.prems
    obtain boxes where b: "pages p = Some boxes" "boxes \<noteq> []"
      "try_variations boxes p vars = Some found"
      by auto
    from b(3) have "page found = p"
      by (auto simp: try_variations_Some)
    with b show ?thesis
      by (intro exI [of _ "[]"] exI [of _ cands] exI [of _ boxes]) simp
  next
    case False
    with Cons.prems have "search_pages pages vars cands = Some found"
      by (simp add: search_pages_skip del: search_pages.simps)
    from Cons.IH [OF this] obtain ps rest boxes where
      *: "cands = ps @ page found # rest" "\<forall>p\<in>set ps. \<not> page_matches pages vars p"
         "pages (page found) = Some boxes" "boxes \<noteq> []"
         "try_variations boxes (page found) vars = Some found"
      by blast
    with False show ?thesis
      by (intro exI [of _ "p # ps"] exI [of _ rest] exI [of _ boxes]) simp
  qed
qed

section \<open>Results of findPhrase\<close>

lemma calculateBoundingRect_nonneg:
  assumes "boxes \<noteq> []" and "\<forall>b\<in>set boxes. 0 \<le> width_box b \<and> 0 \<le> height_box b"
  shows "0 \<le> width_rect (calculateBoundingRect boxes) \<and>
         0 \<le> height_rect (calculateBoundingRect boxes)"
proof -
  from assms(1) obtain b where b: "b \<in> set boxes" by (cases boxes) auto
  have "Min (left_box ` set boxes) \<le> left_box b"
    using b by (intro Min_le) auto
  also have "\<dots> \<le> left_box b + width_box b"
    using assms(2) b by simp
  also have "\<dots> \<le> Max ((\<lambda>b. left_box b + width_box b) ` set boxes)"
    using b by (intro Max_ge) auto
  finally have w: "Min (left_box ` set boxes) \<le> Max ((\<lambda>b. left_box b + width_box b) ` set boxes)" .
  have "Min (top_box ` set boxes) \<le> top_box b"
    using b by (intro Min_le) auto
  also have "\<dots> \<le> top_box b + height_box b"
    using assms(2) b by simp
  also have "\<dots> \<le> Max ((\<lambda>b. top_box b + height_box b) ` set boxes)"
    using b by (intro Max_ge) auto
  finally have h: "Min (top_box ` set boxes) \<le> Max ((\<lambda>b. top_box b + height_box b) ` set boxes)" .
  from w h show ?thesis
    by (simp add: calculateBoundingRect_nonempty [OF assms(1)])
qed

lemma findPhrase_Some:
  assumes "findPhrase phrases pages referenceNumber = Some found"
  shows "\<exists>config ps rest boxes vs v vs'.
           phrases referenceNumber = Some config \<and>
           pagesToSearch config pages = ps @ page found # rest \<and>
           (\<forall>p\<in>set ps. \<not> page_matches pages (variations config) p) \<and>
           pages (page found) = Some boxes \<and> boxes \<noteq> [] \<and>
           variations config = vs @ v # vs' \<and>
           (\<forall>u\<in>set vs. \<not> variation_matches boxes u) \<and>
           variation_matches boxes v \<and>
           rect found = calculateBoundingRect (findMatchingTextBoxes boxes (toLowerCase v))"
proof -
  from assms obtain config where c: "phrases referenceNumber = Some config"
    and s: "search_pages pages (variations config) (pagesToSearch config pages) = Some found"
    by (auto simp: findPhrase_def split: option.splits)
  from search_pages_Some [OF s] obtain ps rest boxes where
    *: "pagesToSearch config pages = ps @ page found # rest"
       "\<forall>p\<in>set ps. \<not> page_matches pages (variations config) p"
       "pages (page found) = Some boxes" "boxes \<noteq> []"
       "try_variations boxes (page found) (variations config) = Some found"
    by blast
  from *(5) obtain vs v vs' where
    **: "variations config = vs @ v # vs'" "\<forall>u\<in>set vs. \<not> variation_matches boxes u"
        "variation_matches boxes v"
        "found = \<lparr>page = page found,
                  rect = calculateBoundingRect (findMatchingTextBoxes boxes (toLowerCase v))\<rparr>"
    unfolding try_variations_Some by blast
  from **(4) have "rect found = calculateBoundingRect (findMatchingTextBoxes boxes (toLowerCase v))"
    by (metis Found.select_convs(2))
  with c * ** show ?thesis by blast
qed

text \<open>
  C10.  When every indexed box has a non-negative width and height, a result of
  \<open>findPhrase\<close> has a rectangle of non-negative width and height; and
  \<open>calculateBoundingRect\<close> on the empty run returns the zero rectangle.
\<close>

theorem findPhrase_rect_nonnegative:
  assumes "\<forall>p boxes. pages p = Some boxes \<longrightarrow> (\<forall>b\<in>set boxes. 0 \<le> width_box b \<and> 0 \<le> height_box b)"
    and "findPhrase phrases pages referenceNumber = Some found"
  shows "0 \<le> width_rect (rect found) \<and> 0 \<le> height_rect (rect found) \<and>
         calculateBoundingRect [] =
           \<lparr>left_rect = 0, top_rect = 0, width_rect = 0, height_rect = 0\<rparr>"
proof -
  from findPhrase_Some [OF assms(2)] obtain boxes v where
    b: "pages (page found) = Some boxes" and m: "variation_matches boxes v"
    and r: "rect found = calculateBoundingRect (findMatchingTextBoxes boxes (toLowerCase v))"
    by blast
  let ?run = "findMatchingTextBoxes boxes (toLowerCase v)"
  from m have ne: "?run \<noteq> []" by (simp add: variation_matches_def)
  have "set ?run \<subseteq> set boxes" by (rule findMatchingTextBoxes_subset)
  with assms(1) b have "\<forall>b\<in>set ?run. 0 \<le> width_box b \<and> 0 \<le> height_box b" by blast
  from calculateBoundingRect_nonneg [OF ne this] r
  show ?thesis by (simp add: calculateBoundingRect_def zero_rect_def)
qed


theorem findPhrase_rect_nonnegative_witness:
  "findPhrase example_phrases example_pages 2 =
     Some \<lparr>page = 3, rect = \<lparr>left_rect = 4, top_rect = 0, width_rect = 6, height_rect = 10\<rparr>\<rparr> \<and>
   (0::real) \<le> 6 \<and> (0::real) \<le> 10"
proof -
  have sizes: "\<forall>p boxes. example_pages p = Some boxes \<longrightarrow>
                 (\<forall>b\<in>set boxes. 0 \<le> width_box b \<and> 0 \<le> height_box b)"
    by (auto simp: example_pages_def example_box_def split: if_splits)
  have found: "findPhrase example_phrases example_pages 2 =
     Some \<lparr>page = 3, rect = \<lparr>left_rect = 4, top_rect = 0, width_rect = 6, height_rect = 10\<rparr>\<rparr>"
    by (simp add: eval_simps example_phrases_def example_pages_def)
  from findPhrase_rect_nonnegative [OF sizes found] found show ?thesis by simp
qed

text \<open>
  C3, as the code has it.  When a variation occurs in the page text of a candidate page
  but \<open>findMatchingTextBoxes\<close> returns the empty run for it, \<open>findPhrase\<close>
  goes on with the next variations on the same page, and moves to the next candidate
  page only when none of them gives a run.
\<close>

theorem empty_run_continues_with_next_variation:
  assumes "pages pageNum = Some boxes" and "boxes \<noteq> []"
    and "\<forall>u\<in>set vs. \<not> variation_matches boxes u"
    and "includes_str (pageText boxes) (toLowerCase v)"
    and "findMatchingTextBoxes boxes (toLowerCase v) = []"
  shows "search_pages pages (vs @ v # vs') (pageNum # rest) =
           (case try_variations boxes pageNum vs' of
              Some found \<Rightarrow> Some found
            | None \<Rightarrow> search_pages pages (vs @ v # vs') rest)"
proof -
  have "try_variations boxes pageNum (vs @ v # vs') = try_variations boxes pageNum (v # vs')"
    using assms(3) by (induction vs) (auto simp: variation_matches_def)
  also have "\<dots> = try_variations boxes pageNum vs'"
    using assms(5) by simp
  finally show ?thesis using assms(1,2) by simp
qed

theorem empty_run_continues_with_next_variation_witness:
  "example_pages 2 = Some [example_box 2 ''A'' 0 10, example_box 2 ''b'' 12 8] \<and>
   includes_str (pageText [example_box 2 ''A'' 0 10, example_box 2 ''b'' 12 8]) (toLowerCase ''a b'') \<and>
   findMatchingTextBoxes [example_box 2 ''A'' 0 10, example_box 2 ''b'' 12 8] (toLowerCase ''a b'') = [] \<and>
   search_pages example_pages ([] @ ''a b'' # [''a'']) [2, 3] =
     Some \<lparr>page = 2, rect = \<lparr>left_rect = 0, top_rect = 0, width_rect = 10, height_rect = 10\<rparr>\<rparr>"
proof -
  let ?boxes = "[example_box 2 ''A'' 0 10, example_box 2 ''b'' 12 8]"
  have 1: "example_pages 2 = Some ?boxes" by (simp add: example_pages_def)
  have 2: "?boxes \<noteq> []" by simp
  have 3: "\<forall>u\<in>set []. \<not> variation_matches ?boxes u" by simp
  have 4: "includes_str (pageText ?boxes) (toLowerCase ''a b'')"
    by (simp add: eval_simps)
  have 5: "findMatchingTextBoxes ?boxes (toLowerCase ''a b'') = []"
    by (simp add: eval_simps)
  have 6: "try_variations ?boxes 2 [''a''] =
     Some \<lparr>page = 2, rect = \<lparr>left_rect = 0, top_rect = 0, width_rect = 10, height_rect = 10\<rparr>\<rparr>"
    by (simp add: eval_simps)
  from empty_run_continues_with_next_variation
         [where pages = example_pages and pageNum = 2 and boxes = ?boxes and vs = "[]"
            and v = "''a b''" and vs' = "[''a'']" and rest = "[3]", OF 1 2 3 4 5] 1 4 5 6
  show ?thesis by (simp del: search_pages.simps try_variations.simps)
qed

text \<open>
  On page 2 of the example the variation \<open>a b\<close> occurs in the page text and has an
  empty run; \<open>findPhrase\<close> still answers on page 2, with the next variation, and
  not what the search from the next page on would answer.
\<close>

theorem next_page_after_empty_run_counterexample:
  "includes_str (pageText [example_box 2 ''A'' 0 10, example_box 2 ''b'' 12 8]) (toLowerCase ''a b'') \<and>
   findMatchingTextBoxes [example_box 2 ''A'' 0 10, example_box 2 ''b'' 12 8] (toLowerCase ''a b'') = [] \<and>
   findPhrase example_phrases example_pages 1 =
     Some \<lparr>page = 2, rect = \<lparr>left_rect = 0, top_rect = 0, width_rect = 10, height_rect = 10\<rparr>\<rparr> \<and>
   findPhrase example_phrases example_pages 1 \<noteq>
     search_pages example_pages [''a b'', ''a''] [3]"
  by (simp add: eval_simps example_phrases_def example_pages_def)

lemma findPhrase_None:
  assumes "phrases referenceNumber = Some config"
  shows "findPhrase phrases pages referenceNumber = None \<longleftrightarrow>
           (\<forall>p\<in>set (pagesToSearch config pages). \<not> page_matches pages (variations config) p)"
  using assms by (simp add: findPhrase_def search_pages_None)

lemma findMatchingTextBoxes_Nil: "findMatchingTextBoxes [] searchText = []"
  using findMatchingTextBoxes_subset [of "[]" searchText] by simp

lemma page_matches_iff:
  "page_matches pages vars p \<longleftrightarrow>
     (\<exists>boxes v. pages p = Some boxes \<and> v \<in> set vars \<and>
        includes_str (pageText boxes) (toLowerCase v) \<and>
        findMatchingTextBoxes boxes (toLowerCase v) \<noteq> [])"
proof (cases "pages p")
  case None
  then show ?thesis by (simp add: page_matches_def)
next
  case (Some boxes)
  show ?thesis
  proof (cases "boxes = []")
    case True
    with Some show ?thesis by (simp add: page_matches_def findMatchingTextBoxes_Nil)
  next
    case False
    with Some show ?thesis
      by (auto simp: page_matches_def variation_matches_def list_ex_iff)
  qed
qed

lemma coarse_test_iff:
  "includes_str (pageText boxes) (toLowerCase v) \<longleftrightarrow>
     (\<exists>before after. toLowerCase (join '' '' (map str boxes)) = before @ toLowerCase v @ after)"
  by (simp add: includes_str_sublist sublist_def pageText_def)

text \<open>
  C5, as the code has it.  For a configured reference (page hints are 1-based page
  numbers), the pages searched are \<open>[pageHint]\<close> when there is a hint and otherwise
  all indexed page numbers in ascending order.  A result is for the first candidate
  page, and on it the first variation of the list, for which both tests hold: the
  variation occurs in the page text and its run is not empty.  Every earlier page and
  every earlier variation fails one of the two tests, and a candidate page with a
  variation that passes both always gives a result.
\<close>

theorem findPhrase_first_variation_with_run:
  assumes "phrases referenceNumber = Some config"
    and "finite (dom pages)"
    and "pageHint config \<noteq> Some 0"
  shows "pagesToSearch config pages =
           (case pageHint config of Some h \<Rightarrow> [h] | None \<Rightarrow> sorted_list_of_set (dom pages)) \<and>
         (pageHint config = None \<longrightarrow>
            sorted (pagesToSearch config pages) \<and> distinct (pagesToSearch config pages) \<and>
            set (pagesToSearch config pages) = dom pages) \<and>
         (\<forall>found. findPhrase phrases pages referenceNumber = Some found \<longrightarrow>
            (\<exists>ps rest boxes vs v vs'.
               pagesToSearch config pages = ps @ page found # rest \<and>
               (\<forall>p\<in>set ps. \<forall>earlier. pages p = Some earlier \<longrightarrow>
                  (\<forall>u\<in>set (variations config).
                     \<not> includes_str (pageText earlier) (toLowerCase u) \<or>
                     findMatchingTextBoxes earlier (toLowerCase u) = [])) \<and>
               pages (page found) = Some boxes \<and>
               variations config = vs @ v # vs' \<and>
               (\<forall>u\<in>set vs.
                  \<not> includes_str (pageText boxes) (toLowerCase u) \<or>
                  findMatchingTextBoxes boxes (toLowerCase u) = []) \<and>
               includes_str (pageText boxes) (toLowerCase v) \<and>
               findMatchingTextBoxes boxes (toLowerCase v) \<noteq> [] \<and>
               rect found = calculateBoundingRect (findMatchingTextBoxes boxes (toLowerCase v)))) \<and>
         ((\<exists>p\<in>set (pagesToSearch config pages). \<exists>boxes. \<exists>v\<in>set (variations config).
              pages p = Some boxes \<and> includes_str (pageText boxes) (toLowerCase v) \<and>
              findMatchingTextBoxes boxes (toLowerCase v) \<noteq> []) \<longrightarrow>
            findPhrase phrases pages referenceNumber \<noteq> None)"
proof (intro conjI allI impI)
  show "pagesToSearch config pages =
           (case pageHint config of Some h \<Rightarrow> [h] | None \<Rightarrow> sorted_list_of_set (dom pages))"
    using assms(3) by (simp add: pagesToSearch_def object_keys_def split: option.splits)
next
  assume "pageHint config = None"
  then have "pagesToSearch config pages = sorted_list_of_set (dom pages)"
    by (simp add: pagesToSearch_def object_keys_def)
  with assms(2) show "sorted (pagesToSearch config pages)"
    and "distinct (pagesToSearch config pages)"
    and "set (pagesToSearch config pages) = dom pages"
    by simp_all
next
  fix found
  assume "findPhrase phrases pages referenceNumber = Some found"
  from findPhrase_Some [OF this] obtain config' ps rest boxes vs v vs' where
    c: "phrases referenceNumber = Some config'"
    and *: "pagesToSearch config' pages = ps @ page found # rest"
      "pages (page found) = Some boxes"
      "variations config' = vs @ v # vs'"
      "rect found = calculateBoundingRect (findMatchingTextBoxes boxes (toLowerCase v))"
    and pg: "\<forall>p\<in>set ps. \<not> page_matches pages (variations config') p"
    and vs: "\<forall>u\<in>set vs. \<not> variation_matches boxes u"
    and v: "variation_matches boxes v"
    by blast
  from c assms(1) have same: "config' = config" by simp
  from pg have pg': "\<forall>p\<in>set ps. \<forall>earlier. pages p = Some earlier \<longrightarrow>
                  (\<forall>u\<in>set (variations config).
                     \<not> includes_str (pageText earlier) (toLowerCase u) \<or>
                     findMatchingTextBoxes earlier (toLowerCase u) = [])"
    unfolding page_matches_iff same by blast
  from vs have vs': "\<forall>u\<in>set vs.
                  \<not> includes_str (pageText boxes) (toLowerCase u) \<or>
                  findMatchingTextBoxes boxes (toLowerCase u) = []"
    by (simp add: variation_matches_def)
  from v have v': "includes_str (pageText boxes) (toLowerCase v)"
      "findMatchingTextBoxes boxes (toLowerCase v) \<noteq> []"
    by (simp_all add: variation_matches_def)
  from * same pg' vs' v'
  show "\<exists>ps rest boxes vs v vs'.
               pagesToSearch config pages = ps @ page found # rest \<and>
               (\<forall>p\<in>set ps. \<forall>earlier. pages p = Some earlier \<longrightarrow>
                  (\<forall>u\<in>set (variations config).
                     \<not> includes_str (pageText earlier) (toLowerCase u) \<or>
                     findMatchingTextBoxes earlier (toLowerCase u) = [])) \<and>
               pages (page found) = Some boxes \<and>
               variations config = vs @ v # vs' \<and>
               (\<forall>u\<in>set vs.
                  \<not> includes_str (pageText boxes) (toLowerCase u) \<or>
                  findMatchingTextBoxes boxes (toLowerCase u) = []) \<and>
               includes_str (pageText boxes) (toLowerCase v) \<and>
               findMatchingTextBoxes boxes (toLowerCase v) \<noteq> [] \<and>
               rect found = calculateBoundingRect (findMatchingTextBoxes boxes (toLowerCase v))"
    by blast
next
  assume "\<exists>p\<in>set (pagesToSearch config pages). \<exists>boxes. \<exists>v\<in>set (variations config).
              pages p = Some boxes \<and> includes_str (pageText boxes) (toLowerCase v) \<and>
              findMatchingTextBoxes boxes (toLowerCase v) \<noteq> []"
  then have "\<exists>p\<in>set (pagesToSearch config pages). page_matches pages (variations config) p"
    unfolding page_matches_iff by blast
  then show "findPhrase phrases pages referenceNumber \<noteq> None"
    using findPhrase_None
            [where phrases = phrases and referenceNumber = referenceNumber and pages = pages,
             OF assms(1)]
    by blast
qed

theorem findPhrase_first_variation_with_run_witness:
  "example_phrases 1 = Some \<lparr>canonical = ''A b'', variations = [''a b'', ''a''], pageHint = None\<rparr> \<and>
   finite (dom example_pages) \<and>
   pagesToSearch \<lparr>canonical = ''A b'', variations = [''a b'', ''a''], pageHint = None\<rparr>
     example_pages = [1, 2, 3] \<and>
   findPhrase example_phrases example_pages 1 =
     Some \<lparr>page = 2, rect = \<lparr>left_rect = 0, top_rect = 0, width_rect = 10, height_rect = 10\<rparr>\<rparr>"
proof -
  let ?config = "\<lparr>canonical = ''A b'', variations = [''a b'', ''a''], pageHint = None\<rparr>"
  have 1: "example_phrases 1 = Some ?config" by (simp add: example_phrases_def)
  have 2: "finite (dom example_pages)" by (simp add: example_pages_def)
  have 3: "pageHint ?config \<noteq> Some 0" by simp
  have 4: "sorted_list_of_set (dom example_pages) = [1, 2, 3]"
    by (simp add: example_pages_def)
  have 5: "findPhrase example_phrases example_pages 1 =
     Some \<lparr>page = 2, rect = \<lparr>left_rect = 0, top_rect = 0, width_rect = 10, height_rect = 10\<rparr>\<rparr>"
    by (simp add: eval_simps example_phrases_def example_pages_def)
  from findPhrase_first_variation_with_run
         [where phrases = example_phrases and referenceNumber = 1 and config = ?config
            and pages = example_pages, OF 1 2 3] 1 2 4 5
  show ?thesis
    by simp
qed

text \<open>
  C5 as stated fails when a match is an occurrence in the page text: with the shipped
  table and page 3 holding \<open>EBITDA of\<close> and \<open>USD 2.3 bn\<close>, the first variation
  occurs in the page text but has no run, and the result is the run of the sixth
  variation, \<open>2.3 bn\<close>.
\<close>

theorem first_occurring_variation_counterexample:
  "map_option variations (SEARCH_PHRASES 1) =
     Some [''ebitda of usd 2.3 bn'', ''ebitda of usd 2.3bn'', ''ebitda usd 2.3 bn'',
           ''ebitda 2.3 bn'', ''ebitda of 2.3 bn'', ''2.3 bn''] \<and>
   includes_str (pageText ebitda_split_page) (toLowerCase ''ebitda of usd 2.3 bn'') \<and>
   findMatchingTextBoxes ebitda_split_page (toLowerCase ''ebitda of usd 2.3 bn'') = [] \<and>
   findMatchingTextBoxes ebitda_split_page (toLowerCase ''2.3 bn'') = ebitda_split_page \<and>
   findPhrase SEARCH_PHRASES [3 \<mapsto> ebitda_split_page] 1 =
     Some \<lparr>page = 3,
           rect = calculateBoundingRect
                    (findMatchingTextBoxes ebitda_split_page (toLowerCase ''2.3 bn''))\<rparr> \<and>
   calculateBoundingRect (findMatchingTextBoxes ebitda_split_page (toLowerCase ''2.3 bn'')) =
     \<lparr>left_rect = 0, top_rect = 0, width_rect = 135, height_rect = 10\<rparr>"
  by (simp add: eval_simps SEARCH_PHRASES_def ebitda_split_page_def)

text \<open>
  C8.  \<open>findPhrase\<close> returns \<open>null\<close> for a reference that is not configured;
  a hinted page that is not indexed, or has no box, is skipped, so the result is
  \<open>null\<close>; and when no candidate page has a variation with a run, the result is
  \<open>null\<close>.
\<close>

theorem findPhrase_absent:
  "(phrases referenceNumber = None \<longrightarrow> findPhrase phrases pages referenceNumber = None) \<and>
   (phrases referenceNumber = Some config \<and> pageHint config = Some h \<and> h \<noteq> 0 \<and>
      (pages h = None \<or> pages h = Some []) \<longrightarrow>
      findPhrase phrases pages referenceNumber = None) \<and>
   (phrases referenceNumber = Some config \<and>
      (\<forall>p\<in>set (pagesToSearch config pages).
         \<forall>boxes. pages p = Some boxes \<longrightarrow>
           (\<forall>v\<in>set (variations config).
              \<not> includes_str (pageText boxes) (toLowerCase v) \<or>
              findMatchingTextBoxes boxes (toLowerCase v) = [])) \<longrightarrow>
      findPhrase phrases pages referenceNumber = None)"
proof (intro conjI impI)
  assume "phrases referenceNumber = None"
  then show "findPhrase phrases pages referenceNumber = None"
    by (simp add: findPhrase_def)
next
  assume "phrases referenceNumber = Some config \<and> pageHint config = Some h \<and> h \<noteq> 0 \<and>
      (pages h = None \<or> pages h = Some [])"
  then show "findPhrase phrases pages referenceNumber = None"
    by (auto simp: findPhrase_def pagesToSearch_def)
next
  assume a: "phrases referenceNumber = Some config \<and>
      (\<forall>p\<in>set (pagesToSearch config pages).
         \<forall>boxes. pages p = Some boxes \<longrightarrow>
           (\<forall>v\<in>set (variations config).
              \<not> includes_str (pageText boxes) (toLowerCase v) \<or>
              findMatchingTextBoxes boxes (toLowerCase v) = []))"
  then have "\<forall>p\<in>set (pagesToSearch config pages). \<not> page_matches pages (variations config) p"
    by (auto simp: page_matches_def variation_matches_def list_ex_iff split: option.splits)
  with a show "findPhrase phrases pages referenceNumber = None"
    by (simp add: findPhrase_None)
qed

theorem findPhrase_absent_witness:
  "example_phrases 9 = None \<and> findPhrase example_phrases example_pages 9 = None \<and>
   example_phrases 4 = Some \<lparr>canonical = ''A'', variations = [''a''], pageHint = Some 7\<rparr> \<and>
   example_pages 7 = None \<and> findPhrase example_phrases example_pages 4 = None \<and>
   example_phrases 3 = Some \<lparr>canonical = ''Zzz'', variations = [''zzz''], pageHint = None\<rparr> \<and>
   findPhrase example_phrases example_pages 3 = None"
proof -
  let ?c4 = "\<lparr>canonical = ''A'', variations = [''a''], pageHint = Some 7\<rparr>"
  let ?c3 = "\<lparr>canonical = ''Zzz'', variations = [''zzz''], pageHint = None\<rparr>"
  have 1: "example_phrases 9 = None" by (simp add: example_phrases_def)
  have 2: "example_phrases 4 = Some ?c4 \<and> pageHint ?c4 = Some 7 \<and> (7::nat) \<noteq> 0 \<and>
      (example_pages 7 = None \<or> example_pages 7 = Some [])"
    by (simp add: example_phrases_def example_pages_def)
  have cands: "pagesToSearch ?c3 example_pages = [1, 2, 3]"
    by (simp add: pagesToSearch_def object_keys_def example_pages_def)
  have 3: "example_phrases 3 = Some ?c3 \<and>
      (\<forall>p\<in>set (pagesToSearch ?c3 example_pages).
         \<forall>boxes. example_pages p = Some boxes \<longrightarrow>
           (\<forall>v\<in>set (variations ?c3).
              \<not> includes_str (pageText boxes) (toLowerCase v) \<or>
              findMatchingTextBoxes boxes (toLowerCase v) = []))"
    by (simp add: cands example_phrases_def example_pages_def) (simp add: eval_simps)
  from findPhrase_absent [of example_phrases 9 example_pages] 1
  have a: "findPhrase example_phrases example_pages 9 = None" by blast
  from findPhrase_absent [of example_phrases 4 example_pages ?c4 7] 2
  have b: "findPhrase example_phrases example_pages 4 = None" by blast
  from findPhrase_absent [of example_phrases 3 example_pages ?c3] 3
  have c: "findPhrase example_phrases example_pages 3 = None" by blast
  have d: "example_pages 7 = None" by (simp add: example_pages_def)
  from 1 2 3 a b c d show ?thesis by blast
qed

section \<open>The scan of findMatchingTextBoxes, test by test\<close>

lemma length_toLowerCase: "length (toLowerCase s) = length s"
  by (simp add: toLowerCase_def)

lemma text_length_Suc:
  "i < length boxes \<Longrightarrow>
     sum_list (map (\<lambda>box. length (str box)) (take (Suc i) boxes))
       = sum_list (map (\<lambda>box. length (str box)) (take i boxes)) + length (str (boxes ! i))"
  by (simp add: take_Suc_conv_app_nth)

lemma total_take_le:
  "sum_list (map (\<lambda>box. length (str box)) (take n boxes))
     \<le> sum_list (map (\<lambda>box. length (str box)) boxes)"
proof -
  have "sum_list (map (\<lambda>box. length (str box)) boxes)
          = sum_list (map (\<lambda>box. length (str box)) (take n boxes @ drop n boxes))"
    by simp
  also have "\<dots> = sum_list (map (\<lambda>box. length (str box)) (take n boxes))
                  + sum_list (map (\<lambda>box. length (str box)) (drop n boxes))"
    by (simp only: map_append sum_list_append)
  finally show ?thesis by simp
qed

text \<open>One iteration of the loop, by the branch it takes.\<close>

lemma scan_states_end:
  "\<not> i < length boxes \<Longrightarrow> scan_states boxes searchText i currentText currentBoxes = []"
  by (subst scan_states.simps) simp

lemma scan_states_hit:
  "i < length boxes \<Longrightarrow>
   includes_str (currentText @ toLowerCase (str (boxes ! i))) searchText \<Longrightarrow>
     scan_states boxes searchText i currentText currentBoxes
       = [(i, currentText @ toLowerCase (str (boxes ! i)), currentBoxes @ [boxes ! i])]"
  by (subst scan_states.simps) simp

lemma scan_states_trim:
  "i < length boxes \<Longrightarrow>
   \<not> includes_str (currentText @ toLowerCase (str (boxes ! i))) searchText \<Longrightarrow>
   length (currentText @ toLowerCase (str (boxes ! i))) > length searchText * 3 \<Longrightarrow>
     scan_states boxes searchText i currentText currentBoxes
       = (i, currentText @ toLowerCase (str (boxes ! i)), currentBoxes @ [boxes ! i]) #
         scan_states boxes searchText (Suc i)
           (drop (length (str (boxes ! (i - 10)))) (currentText @ toLowerCase (str (boxes ! i))))
           (drop 1 (currentBoxes @ [boxes ! i]))"
  by (subst scan_states.simps) (simp only: if_True if_False)

lemma scan_states_keep:
  "i < length boxes \<Longrightarrow>
   \<not> includes_str (currentText @ toLowerCase (str (boxes ! i))) searchText \<Longrightarrow>
   \<not> length (currentText @ toLowerCase (str (boxes ! i))) > length searchText * 3 \<Longrightarrow>
     scan_states boxes searchText i currentText currentBoxes
       = (i, currentText @ toLowerCase (str (boxes ! i)), currentBoxes @ [boxes ! i]) #
         scan_states boxes searchText (Suc i)
           (currentText @ toLowerCase (str (boxes ! i))) (currentBoxes @ [boxes ! i])"
  by (subst scan_states.simps) (simp only: if_True if_False)

lemma scan_states_indices:
  "map fst (scan_states boxes searchText i currentText currentBoxes)
     = [i ..< i + length (scan_states boxes searchText i currentText currentBoxes)]"
proof (induction boxes searchText i currentText currentBoxes rule: scan_states.induct)
  case (1 boxes searchText i currentText currentBoxes)
  let ?text = "currentText @ toLowerCase (str (boxes ! i))"
  consider (finished) "\<not> i < length boxes"
    | (hit) "i < length boxes" "includes_str ?text searchText"
    | (trim) "i < length boxes" "\<not> includes_str ?text searchText"
        "length ?text > length searchText * 3"
    | (keep) "i < length boxes" "\<not> includes_str ?text searchText"
        "\<not> length ?text > length searchText * 3"
    by blast
  then show ?case
  proof cases
    case finished
    then show ?thesis by (simp add: scan_states_end)
  next
    case hit
    then show ?thesis by (simp add: scan_states_hit)
  next
    case trim
    define rest where "rest = scan_states boxes searchText (Suc i)
      (drop (length (str (boxes ! (i - 10)))) ?text) (drop 1 (currentBoxes @ [boxes ! i]))"
    have eq: "scan_states boxes searchText i currentText currentBoxes
                = (i, ?text, currentBoxes @ [boxes ! i]) # rest"
      unfolding rest_def by (rule scan_states_trim [OF trim])
    have "map fst rest = [Suc i ..< Suc i + length rest]"
      unfolding rest_def by (rule "1.IH"(1) [OF trim])
    then show ?thesis
      unfolding eq by (simp add: upt_conv_Cons del: upt_Suc)
  next
    case keep
    define rest where "rest = scan_states boxes searchText (Suc i)
      ?text (currentBoxes @ [boxes ! i])"
    have eq: "scan_states boxes searchText i currentText currentBoxes
                = (i, ?text, currentBoxes @ [boxes ! i]) # rest"
      unfolding rest_def by (rule scan_states_keep [OF keep])
    have "map fst rest = [Suc i ..< Suc i + length rest]"
      unfolding rest_def by (rule "1.IH"(2) [OF keep])
    then show ?thesis
      unfolding eq by (simp add: upt_conv_Cons del: upt_Suc)
  qed
qed

lemma scan_states_length:
  "i \<le> length boxes \<Longrightarrow>
     i + length (scan_states boxes searchText i currentText currentBoxes) \<le> length boxes"
proof (induction boxes searchText i currentText currentBoxes rule: scan_states.induct)
  case (1 boxes searchText i currentText currentBoxes)
  let ?text = "currentText @ toLowerCase (str (boxes ! i))"
  consider (finished) "\<not> i < length boxes"
    | (hit) "i < length boxes" "includes_str ?text searchText"
    | (trim) "i < length boxes" "\<not> includes_str ?text searchText"
        "length ?text > length searchText * 3"
    | (keep) "i < length boxes" "\<not> includes_str ?text searchText"
        "\<not> length ?text > length searchText * 3"
    by blast
  then show ?case
  proof cases
    case finished
    with "1.prems" show ?thesis by (simp add: scan_states_end)
  next
    case hit
    then show ?thesis by (simp add: scan_states_hit)
  next
    case trim
    from trim(1) have "Suc i \<le> length boxes" by simp
    from "1.IH"(1) [OF trim this] show ?thesis
      by (simp only: scan_states_trim [OF trim]) simp
  next
    case keep
    from keep(1) have "Suc i \<le> length boxes" by simp
    from "1.IH"(2) [OF keep this] show ?thesis
      by (simp only: scan_states_keep [OF keep]) simp
  qed
qed

lemma scan_states_buffer:
  "length currentText \<le> sum_list (map (\<lambda>box. length (str box)) (take i boxes)) \<Longrightarrow>
     \<forall>(j, text, window) \<in> set (scan_states boxes searchText i currentText currentBoxes).
        length text \<le> sum_list (map (\<lambda>box. length (str box)) (take (Suc j) boxes))"
proof (induction boxes searchText i currentText currentBoxes rule: scan_states.induct)
  case (1 boxes searchText i currentText currentBoxes)
  let ?text = "currentText @ toLowerCase (str (boxes ! i))"
  let ?total = "\<lambda>n. sum_list (map (\<lambda>box. length (str box)) (take n boxes))"
  consider (finished) "\<not> i < length boxes"
    | (hit) "i < length boxes" "includes_str ?text searchText"
    | (trim) "i < length boxes" "\<not> includes_str ?text searchText"
        "length ?text > length searchText * 3"
    | (keep) "i < length boxes" "\<not> includes_str ?text searchText"
        "\<not> length ?text > length searchText * 3"
    by blast
  then show ?case
  proof cases
    case finished
    then show ?thesis by (simp add: scan_states_end)
  next
    case hit
    have "length ?text \<le> ?total (Suc i)"
      using "1.prems" hit(1) by (simp add: text_length_Suc length_toLowerCase)
    then show ?thesis by (simp only: scan_states_hit [OF hit]) simp
  next
    case trim
    have here: "length ?text \<le> ?total (Suc i)"
      using "1.prems" trim(1) by (simp add: text_length_Suc length_toLowerCase)
    then have "length (drop (length (str (boxes ! (i - 10)))) ?text) \<le> ?total (Suc i)"
      by simp
    from "1.IH"(1) [OF trim this] here show ?thesis
      by (simp only: scan_states_trim [OF trim]) simp
  next
    case keep
    have here: "length ?text \<le> ?total (Suc i)"
      using "1.prems" keep(1) by (simp add: text_length_Suc length_toLowerCase)
    from "1.IH"(2) [OF keep this] here show ?thesis
      by (simp only: scan_states_keep [OF keep]) simp
  qed
qed

text \<open>The loop returns what its last test says, and only the last test succeeds.\<close>

lemma loop_scan_states:
  "findMatchingTextBoxes_loop boxes searchText i currentText currentBoxes =
     (case scan_states boxes searchText i currentText currentBoxes of
        [] \<Rightarrow> []
      | s # ss \<Rightarrow> (case last (s # ss) of (j, text, window) \<Rightarrow>
                     if includes_str text searchText then window else []))"
proof (induction boxes searchText i currentText currentBoxes rule: scan_states.induct)
  case (1 boxes searchText i currentText currentBoxes)
  let ?text = "currentText @ toLowerCase (str (boxes ! i))"
  note unfold = findMatchingTextBoxes_loop.simps [of boxes searchText i currentText currentBoxes]
  consider (finished) "\<not> i < length boxes"
    | (hit) "i < length boxes" "includes_str ?text searchText"
    | (trim) "i < length boxes" "\<not> includes_str ?text searchText"
        "length ?text > length searchText * 3"
    | (keep) "i < length boxes" "\<not> includes_str ?text searchText"
        "\<not> length ?text > length searchText * 3"
    by blast
  then show ?case
  proof cases
    case finished
    then show ?thesis by (simp add: scan_states_end unfold)
  next
    case hit
    then show ?thesis by (simp add: scan_states_hit unfold)
  next
    case trim
    have "findMatchingTextBoxes_loop boxes searchText i currentText currentBoxes
            = findMatchingTextBoxes_loop boxes searchText (Suc i)
                (drop (length (str (boxes ! (i - 10)))) ?text) (drop 1 (currentBoxes @ [boxes ! i]))"
      using trim by (subst unfold) (simp only: if_True if_False)
    with "1.IH"(1) [OF trim] trim(2) show ?thesis
      by (simp only: scan_states_trim [OF trim]) (simp split: list.splits)
  next
    case keep
    have "findMatchingTextBoxes_loop boxes searchText i currentText currentBoxes
            = findMatchingTextBoxes_loop boxes searchText (Suc i)
                ?text (currentBoxes @ [boxes ! i])"
      using keep by (subst unfold) (simp only: if_True if_False)
    with "1.IH"(2) [OF keep] keep(2) show ?thesis
      by (simp only: scan_states_keep [OF keep]) (simp split: list.splits)
  qed
qed

lemma scan_states_first_hit:
  "\<forall>(j, text, window) \<in> set (butlast (scan_states boxes searchText i currentText currentBoxes)).
     \<not> includes_str text searchText"
proof (induction boxes searchText i currentText currentBoxes rule: scan_states.induct)
  case (1 boxes searchText i currentText currentBoxes)
  let ?text = "currentText @ toLowerCase (str (boxes ! i))"
  consider (finished) "\<not> i < length boxes"
    | (hit) "i < length boxes" "includes_str ?text searchText"
    | (trim) "i < length boxes" "\<not> includes_str ?text searchText"
        "length ?text > length searchText * 3"
    | (keep) "i < length boxes" "\<not> includes_str ?text searchText"
        "\<not> length ?text > length searchText * 3"
    by blast
  then show ?case
  proof cases
    case finished
    then show ?thesis by (simp add: scan_states_end)
  next
    case hit
    then show ?thesis by (simp add: scan_states_hit)
  next
    case trim
    from "1.IH"(1) [OF trim] trim(2) show ?thesis
      by (simp only: scan_states_trim [OF trim]) (simp split: if_splits)
  next
    case keep
    from "1.IH"(2) [OF keep] keep(2) show ?thesis
      by (simp only: scan_states_keep [OF keep]) (simp split: if_splits)
  qed
qed

text \<open>
  C1.  A result of \<open>findPhrase\<close> should come from a run whose lower-case texts,
  put together without spaces, contain the variation.  On the page
  \<open>aaaaaaa\<close>, \<open>cccccccb\<close>, \<open>z\<close>, \<open>bz\<close> the variation \<open>bz\<close> gets the
  run that is the single box \<open>z\<close>, whose text does not contain it, and the rectangle
  returned is the one of that box.  (The run is always a segment of the page, by
  \<open>findMatchingTextBoxes_sublist\<close>, and is returned at the first test that succeeds,
  by \<open>loop_scan_states\<close> and \<open>scan_states_first_hit\<close>.)
\<close>

theorem run_without_the_variation:
  "findMatchingTextBoxes spanning_page (toLowerCase ''bz'') = [example_box 1 ''z'' 150 10] \<and>
   concat (map (\<lambda>box. toLowerCase (str box)) (findMatchingTextBoxes spanning_page (toLowerCase ''bz'')))
     = ''z'' \<and>
   \<not> includes_str
        (concat (map (\<lambda>box. toLowerCase (str box))
           (findMatchingTextBoxes spanning_page (toLowerCase ''bz''))))
        (toLowerCase ''bz'') \<and>
   findPhrase [1 \<mapsto> \<lparr>canonical = ''bz'', variations = [''bz''], pageHint = None\<rparr>]
       [1 \<mapsto> spanning_page] 1
     = Some \<lparr>page = 1,
             rect = \<lparr>left_rect = 150, top_rect = 0, width_rect = 10, height_rect = 10\<rparr>\<rparr>"
  by (simp add: eval_simps spanning_page_def)

text \<open>
  C2.  After each step the buffer should be the lower-case texts of the window put
  together.  In the second iteration on the page above the window loses its only
  box, \<open>cccccccb\<close>, but the buffer loses the seven characters of \<open>boxes[0]\<close>, so
  the third iteration tests the buffer \<open>bz\<close> with the window \<open>z\<close>.
\<close>

theorem buffer_differs_from_window:
  "scan_states spanning_page ''bz'' 0 [] [] =
     [(0, ''aaaaaaa'', [example_box 1 ''aaaaaaa'' 0 70]),
      (1, ''cccccccb'', [example_box 1 ''cccccccb'' 70 80]),
      (2, ''bz'', [example_box 1 ''z'' 150 10])] \<and>
   concat (map (\<lambda>box. toLowerCase (str box)) [example_box 1 ''z'' 150 10]) = ''z'' \<and>
   ''bz'' \<noteq> concat (map (\<lambda>box. toLowerCase (str box)) [example_box 1 ''z'' 150 10])"
  by (simp add: eval_simps spanning_page_def)

text \<open>
  C7 as stated fails: on the page \<open>''\<close>, \<open>aa\<close>, \<open>aa\<close>, \<open>aa\<close> with a variation
  of length 1 the fourth iteration holds a buffer of length 6, more than
  \<open>3 * 1 + 2\<close>.  The only trim before it drops the empty first box, the oldest box
  of the window.
\<close>

theorem buffer_longer_than_three_times_counterexample:
  "scan_states filler_page ''z'' 0 [] [] ! 3 =
     (3, ''aaaaaa'', [example_box 1 ''aa'' 0 20, example_box 1 ''aa'' 20 20, example_box 1 ''aa'' 40 20]) \<and>
   Max (set (map (\<lambda>box. length (str box)) filler_page)) = 2 \<and>
   3 * length ''z'' + Max (set (map (\<lambda>box. length (str box)) filler_page)) < length ''aaaaaa''"
  by (simp add: eval_simps filler_page_def)

text \<open>
  C7, as the code has it.  The scan of \<open>findMatchingTextBoxes\<close> visits the boxes
  \<open>0, 1, 2, \<dots>\<close> in order, each at most once and at most \<open>length boxes\<close> of them,
  and at every test the buffer is no longer than the texts of the boxes visited so
  far, hence than the texts of the page.
\<close>

theorem scan_visits_once_buffer_bounded:
  "map fst (scan_states boxes searchText 0 [] [])
     = [0 ..< length (scan_states boxes searchText 0 [] [])] \<and>
   length (scan_states boxes searchText 0 [] []) \<le> length boxes \<and>
   (\<forall>(j, buffer, window) \<in> set (scan_states boxes searchText 0 [] []).
      length buffer \<le> sum_list (map (\<lambda>box. length (str box)) (take (Suc j) boxes)) \<and>
      length buffer \<le> sum_list (map (\<lambda>box. length (str box)) boxes))"
proof (intro conjI)
  show "map fst (scan_states boxes searchText 0 [] [])
     = [0 ..< length (scan_states boxes searchText 0 [] [])]"
    using scan_states_indices [of boxes searchText 0 "[]" "[]"] by simp
  show "length (scan_states boxes searchText 0 [] []) \<le> length boxes"
    using scan_states_length [of 0 boxes searchText "[]" "[]"] by simp
  have "\<forall>(j, buffer, window) \<in> set (scan_states boxes searchText 0 [] []).
      length buffer \<le> sum_list (map (\<lambda>box. length (str box)) (take (Suc j) boxes))"
    by (rule scan_states_buffer) simp
  moreover have "\<And>j. sum_list (map (\<lambda>box. length (str box)) (take (Suc j) boxes))
      \<le> sum_list (map (\<lambda>box. length (str box)) boxes)"
    by (rule total_take_le)
  ultimately show "\<forall>(j, buffer, window) \<in> set (scan_states boxes searchText 0 [] []).
      length buffer \<le> sum_list (map (\<lambda>box. length (str box)) (take (Suc j) boxes)) \<and>
      length buffer \<le> sum_list (map (\<lambda>box. length (str box)) boxes)"
    by (fastforce intro: order_trans)
qed

theorem scan_visits_once_buffer_bounded_witness:
  "map fst (scan_states filler_page ''z'' 0 [] []) = [0, 1, 2, 3] \<and>
   length (scan_states filler_page ''z'' 0 [] []) \<le> length filler_page \<and>
   (3, ''aaaaaa'', [example_box 1 ''aa'' 0 20, example_box 1 ''aa'' 20 20, example_box 1 ''aa'' 40 20])
     \<in> set (scan_states filler_page ''z'' 0 [] []) \<and>
   length ''aaaaaa'' \<le> sum_list (map (\<lambda>box. length (str box)) filler_page)"
  using scan_visits_once_buffer_bounded [of filler_page "''z''"]
  by (simp add: eval_simps filler_page_def)

section \<open>Letter case\<close>

lemma toLowerCase_char_idem: "toLowerCase_char (toLowerCase_char c) = toLowerCase_char c"
proof (cases "65 \<le> (of_char c :: nat) \<and> (of_char c :: nat) \<le> 90")
  case True
  then have "(of_char (char_of ((of_char c :: nat) + 32)) :: nat) = of_char c + 32"
    by simp
  with True show ?thesis by (simp add: toLowerCase_char_def)
next
  case False
  then show ?thesis by (auto simp: toLowerCase_char_def)
qed

lemma toLowerCase_idem: "toLowerCase (toLowerCase s) = toLowerCase s"
  by (simp add: toLowerCase_def toLowerCase_char_idem)

lemma toLowerCase_append: "toLowerCase (s @ t) = toLowerCase s @ toLowerCase t"
  by (simp add: toLowerCase_def)

lemma toLowerCase_join:
  "toLowerCase (join sep ss) = join (toLowerCase sep) (map toLowerCase ss)"
  by (induction sep ss rule: join.induct) (simp_all add: toLowerCase_append, simp add: toLowerCase_def)

lemma pageText_lower: "pageText boxes = join '' '' (map (\<lambda>box. toLowerCase (str box)) boxes)"
proof -
  have "toLowerCase '' '' = '' ''"
    by (simp add: toLowerCase_def toLowerCase_char_def)
  then show ?thesis
    by (simp add: pageText_def toLowerCase_join comp_def)
qed

lemma str_lower_box: "str (lower_box box) = toLowerCase (str box)"
  by (simp add: lower_box_def)

lemma pageText_lower_box: "pageText (map lower_box boxes) = pageText boxes"
  by (simp add: pageText_lower comp_def str_lower_box toLowerCase_idem)

lemma bound_step_lower_box: "bound_step (lower_box box) = bound_step box"
  by (rule ext) (simp add: bound_step_def lower_box_def)

lemma calculateBoundingRect_lower_box:
  "calculateBoundingRect (map lower_box boxes) = calculateBoundingRect boxes"
  by (simp add: calculateBoundingRect_def fold_map comp_def bound_step_lower_box)

lemma loop_lower_box:
  "findMatchingTextBoxes_loop (map lower_box boxes) searchText i currentText
       (map lower_box currentBoxes)
     = map lower_box (findMatchingTextBoxes_loop boxes searchText i currentText currentBoxes)"
proof (induction boxes searchText i currentText currentBoxes
       rule: findMatchingTextBoxes_loop.induct)
  case (1 boxes searchText i currentText currentBoxes)
  let ?text = "currentText @ toLowerCase (str (boxes ! i))"
  note unfold = findMatchingTextBoxes_loop.simps [of boxes searchText i currentText currentBoxes]
  note unfold' = findMatchingTextBoxes_loop.simps
      [of "map lower_box boxes" searchText i currentText "map lower_box currentBoxes"]
  show ?case
  proof (cases "i < length boxes")
    case False
    then show ?thesis by (simp add: unfold unfold')
  next
    case True
    then have old: "i - 10 < length boxes" by simp
    have buf: "currentText @ toLowerCase (str (map lower_box boxes ! i)) = ?text"
      using True by (simp add: str_lower_box toLowerCase_idem)
    have trim: "length (str (map lower_box boxes ! (i - 10))) = length (str (boxes ! (i - 10)))"
      using old by (simp add: str_lower_box length_toLowerCase)
    have push: "map lower_box currentBoxes @ [map lower_box boxes ! i]
                  = map lower_box (currentBoxes @ [boxes ! i])"
      using True by simp
    show ?thesis
    proof (cases "includes_str ?text searchText")
      case hit: True
      have "findMatchingTextBoxes_loop (map lower_box boxes) searchText i currentText
              (map lower_box currentBoxes) = map lower_box (currentBoxes @ [boxes ! i])"
        using True hit by (subst unfold') (simp only: buf push length_map if_True)
      moreover have "findMatchingTextBoxes_loop boxes searchText i currentText currentBoxes
              = currentBoxes @ [boxes ! i]"
        using True hit by (subst unfold) (simp only: if_True)
      ultimately show ?thesis by simp
    next
      case miss: False
      show ?thesis
      proof (cases "length ?text > length searchText * 3")
        case long: True
        have "findMatchingTextBoxes_loop (map lower_box boxes) searchText i currentText
                (map lower_box currentBoxes)
              = findMatchingTextBoxes_loop (map lower_box boxes) searchText (Suc i)
                  (drop (length (str (boxes ! (i - 10)))) ?text)
                  (drop 1 (map lower_box (currentBoxes @ [boxes ! i])))"
          using True miss long
          by (subst unfold') (simp only: buf push trim length_map if_True if_False)
        also have "\<dots> = findMatchingTextBoxes_loop (map lower_box boxes) searchText (Suc i)
                  (drop (length (str (boxes ! (i - 10)))) ?text)
                  (map lower_box (drop 1 (currentBoxes @ [boxes ! i])))"
          by (simp only: drop_map)
        also have "\<dots> = map lower_box (findMatchingTextBoxes_loop boxes searchText (Suc i)
                  (drop (length (str (boxes ! (i - 10)))) ?text)
                  (drop 1 (currentBoxes @ [boxes ! i])))"
          by (rule "1.IH"(1) [OF True miss long])
        also have "\<dots> = map lower_box
                  (findMatchingTextBoxes_loop boxes searchText i currentText currentBoxes)"
          using True miss long by (subst unfold) (simp only: if_True if_False)
        finally show ?thesis .
      next
        case short: False
        have "findMatchingTextBoxes_loop (map lower_box boxes) searchText i currentText
                (map lower_box currentBoxes)
              = findMatchingTextBoxes_loop (map lower_box boxes) searchText (Suc i)
                  ?text (map lower_box (currentBoxes @ [boxes ! i]))"
          using True miss short
          by (subst unfold') (simp only: buf push trim length_map if_True if_False)
        also have "\<dots> = map lower_box (findMatchingTextBoxes_loop boxes searchText (Suc i)
                  ?text (currentBoxes @ [boxes ! i]))"
          by (rule "1.IH"(2) [OF True miss short])
        also have "\<dots> = map lower_box
                  (findMatchingTextBoxes_loop boxes searchText i currentText currentBoxes)"
          using True miss short by (subst unfold) (simp only: if_True if_False)
        finally show ?thesis .
      qed
    qed
  qed
qed

lemma findMatchingTextBoxes_lower_box:
  "findMatchingTextBoxes (map lower_box boxes) searchText
     = map lower_box (findMatchingTextBoxes boxes searchText)"
  using loop_lower_box [of boxes searchText 0 "[]" "[]"]
  by (simp add: findMatchingTextBoxes_def)

lemma variation_matches_lower:
  "variation_matches (map lower_box boxes) (toLowerCase v) = variation_matches boxes v"
  by (simp add: variation_matches_def pageText_lower_box findMatchingTextBoxes_lower_box
      toLowerCase_idem)

lemma try_variations_lower:
  "try_variations (map lower_box boxes) pageNum (map toLowerCase vars)
     = try_variations boxes pageNum vars"
  by (induction vars)
     (simp_all add: pageText_lower_box findMatchingTextBoxes_lower_box toLowerCase_idem
        calculateBoundingRect_lower_box)

lemma search_pages_lower:
  "search_pages (\<lambda>p. map_option (map lower_box) (pages p)) (map toLowerCase vars) cands
     = search_pages pages vars cands"
  by (induction cands) (simp_all add: try_variations_lower split: option.splits)

text \<open>
  C6.  A result of \<open>findPhrase\<close> is for a variation whose lower-case form is a
  substring of the lower-case texts of the page's boxes, in order, joined by single
  spaces; \<open>findPhrase\<close> gives a result exactly when some candidate page has a
  variation with that property and a non-empty run, with no other change to either
  text; and the result does not change when the texts of the boxes and the variations
  change their letter case only.  (Strings are ASCII here: \<open>toLowerCase\<close> maps
  \<open>A\<close> to \<open>Z\<close> and keeps the length of a string.)
\<close>

theorem coarse_check_is_exact_substring:
  assumes "phrases referenceNumber = Some config"
    and "phrases' referenceNumber = Some config'"
    and "map toLowerCase (variations config) = map toLowerCase (variations config')"
    and "pageHint config = pageHint config'"
    and "\<forall>p. map_option (map lower_box) (pages p) = map_option (map lower_box) (pages' p)"
  shows "(\<forall>found. findPhrase phrases pages referenceNumber = Some found \<longrightarrow>
            (\<exists>boxes. \<exists>v\<in>set (variations config).
               pages (page found) = Some boxes \<and>
               (\<exists>before after.
                  toLowerCase (join '' '' (map str boxes)) = before @ toLowerCase v @ after) \<and>
               findMatchingTextBoxes boxes (toLowerCase v) \<noteq> [] \<and>
               rect found = calculateBoundingRect (findMatchingTextBoxes boxes (toLowerCase v)))) \<and>
         (findPhrase phrases pages referenceNumber \<noteq> None \<longleftrightarrow>
            (\<exists>p\<in>set (pagesToSearch config pages). \<exists>boxes. \<exists>v\<in>set (variations config).
               pages p = Some boxes \<and>
               (\<exists>before after.
                  toLowerCase (join '' '' (map str boxes)) = before @ toLowerCase v @ after) \<and>
               findMatchingTextBoxes boxes (toLowerCase v) \<noteq> [])) \<and>
         findPhrase phrases pages referenceNumber = findPhrase phrases' pages' referenceNumber"
proof (intro conjI allI impI)
  fix found
  assume "findPhrase phrases pages referenceNumber = Some found"
  from findPhrase_Some [OF this] obtain config0 boxes vs v vs' where
    c: "phrases referenceNumber = Some config0"
    and *: "pages (page found) = Some boxes" "variations config0 = vs @ v # vs'"
      "variation_matches boxes v"
      "rect found = calculateBoundingRect (findMatchingTextBoxes boxes (toLowerCase v))"
    by blast
  from c assms(1) have same: "config0 = config" by simp
  from *(2) same have "v \<in> set (variations config)" by simp
  moreover from *(3) have "\<exists>before after.
      toLowerCase (join '' '' (map str boxes)) = before @ toLowerCase v @ after"
    and "findMatchingTextBoxes boxes (toLowerCase v) \<noteq> []"
    by (simp_all add: variation_matches_def coarse_test_iff)
  ultimately show "\<exists>boxes. \<exists>v\<in>set (variations config).
               pages (page found) = Some boxes \<and>
               (\<exists>before after.
                  toLowerCase (join '' '' (map str boxes)) = before @ toLowerCase v @ after) \<and>
               findMatchingTextBoxes boxes (toLowerCase v) \<noteq> [] \<and>
               rect found = calculateBoundingRect (findMatchingTextBoxes boxes (toLowerCase v))"
    using *(1,4) by blast
next
  have "findPhrase phrases pages referenceNumber \<noteq> None \<longleftrightarrow>
          (\<exists>p\<in>set (pagesToSearch config pages). page_matches pages (variations config) p)"
    using findPhrase_None
            [where phrases = phrases and referenceNumber = referenceNumber and pages = pages,
             OF assms(1)]
    by auto
  also have "\<dots> \<longleftrightarrow>
            (\<exists>p\<in>set (pagesToSearch config pages). \<exists>boxes. \<exists>v\<in>set (variations config).
               pages p = Some boxes \<and>
               (\<exists>before after.
                  toLowerCase (join '' '' (map str boxes)) = before @ toLowerCase v @ after) \<and>
               findMatchingTextBoxes boxes (toLowerCase v) \<noteq> [])"
    unfolding page_matches_iff coarse_test_iff by blast
  finally show "findPhrase phrases pages referenceNumber \<noteq> None \<longleftrightarrow>
            (\<exists>p\<in>set (pagesToSearch config pages). \<exists>boxes. \<exists>v\<in>set (variations config).
               pages p = Some boxes \<and>
               (\<exists>before after.
                  toLowerCase (join '' '' (map str boxes)) = before @ toLowerCase v @ after) \<and>
               findMatchingTextBoxes boxes (toLowerCase v) \<noteq> [])" .
next
  let ?low = "\<lambda>pages p. map_option (map lower_box) (pages p)"
  from assms(5) have same: "?low pages = ?low pages'" by (intro ext) simp
  have "dom pages = dom pages'"
  proof -
    have "dom pages = dom (?low pages)" by (auto simp: dom_def)
    also have "\<dots> = dom (?low pages')" by (simp only: same)
    also have "\<dots> = dom pages'" by (auto simp: dom_def)
    finally show ?thesis .
  qed
  with assms(4) have cands: "pagesToSearch config pages = pagesToSearch config' pages'"
    by (simp add: pagesToSearch_def object_keys_def split: option.splits)
  have "findPhrase phrases pages referenceNumber
          = search_pages pages (variations config) (pagesToSearch config pages)"
    using assms(1) by (simp add: findPhrase_def)
  also have "\<dots> = search_pages (?low pages) (map toLowerCase (variations config))
                     (pagesToSearch config pages)"
    by (simp only: search_pages_lower)
  also have "\<dots> = search_pages (?low pages') (map toLowerCase (variations config'))
                     (pagesToSearch config' pages')"
    by (simp only: same assms(3) cands)
  also have "\<dots> = search_pages pages' (variations config') (pagesToSearch config' pages')"
    by (simp only: search_pages_lower)
  also have "\<dots> = findPhrase phrases' pages' referenceNumber"
    using assms(2) by (simp add: findPhrase_def)
  finally show "findPhrase phrases pages referenceNumber
                  = findPhrase phrases' pages' referenceNumber" .
qed

theorem coarse_check_is_exact_substring_witness:
  "ebitda_mixed_phrases 1 =
     Some \<lparr>canonical = ''EBITDA'', variations = [''Ebitda''], pageHint = Some 3\<rparr> \<and>
   ebitda_phrases 1 =
     Some \<lparr>canonical = ''EBITDA'', variations = [''ebitda''], pageHint = Some 3\<rparr> \<and>
   findPhrase ebitda_mixed_phrases ebitda_upper_pages 1 =
     Some \<lparr>page = 3, rect = \<lparr>left_rect = 0, top_rect = 0, width_rect = 85, height_rect = 10\<rparr>\<rparr> \<and>
   findPhrase ebitda_phrases ebitda_lower_pages 1 =
     Some \<lparr>page = 3, rect = \<lparr>left_rect = 0, top_rect = 0, width_rect = 85, height_rect = 10\<rparr>\<rparr>"
proof -
  let ?mixed = "\<lparr>canonical = ''EBITDA'', variations = [''Ebitda''], pageHint = Some 3\<rparr>"
  let ?lower = "\<lparr>canonical = ''EBITDA'', variations = [''ebitda''], pageHint = Some 3\<rparr>"
  have 1: "ebitda_mixed_phrases 1 = Some ?mixed" by (simp add: ebitda_mixed_phrases_def)
  have 2: "ebitda_phrases 1 = Some ?lower" by (simp add: ebitda_phrases_def)
  have 3: "map toLowerCase (variations ?mixed) = map toLowerCase (variations ?lower)"
    by (simp add: eval_simps)
  have 4: "pageHint ?mixed = pageHint ?lower" by simp
  have 5: "\<forall>p. map_option (map lower_box) (ebitda_upper_pages p)
               = map_option (map lower_box) (ebitda_lower_pages p)"
    by (simp add: ebitda_upper_pages_def ebitda_lower_pages_def lower_box_def eval_simps)
  have 6: "findPhrase ebitda_phrases ebitda_lower_pages 1 =
     Some \<lparr>page = 3, rect = \<lparr>left_rect = 0, top_rect = 0, width_rect = 85, height_rect = 10\<rparr>\<rparr>"
    by (simp add: ebitda_phrases_def ebitda_lower_pages_def eval_simps)
  from coarse_check_is_exact_substring
         [where phrases = ebitda_mixed_phrases and phrases' = ebitda_phrases
            and referenceNumber = 1 and config = ?mixed and config' = ?lower
            and pages = ebitda_upper_pages and pages' = ebitda_lower_pages, OF 1 2 3 4 5] 1 2 6
  show ?thesis by simp
qed

section \<open>The highlight slot\<close>




end
